theory Spec2Isabelle
  imports Main "HOL-Library.Word"
begin

unbundle bit_operations_syntax

section \<open>The GHC symbol demangler of demangle-ghc.c\<close>

text \<open>
  A shallow embedding of \<^verbatim>\<open>haskell_demangle\<close> and of the \<^verbatim>\<open>str_buf\<close> helpers it is
  built from. Conventions:
  \<^item> a C \<^verbatim>\<open>char\<close> is a \<open>char\<close>, a C string is the \<open>char list\<close> of the bytes before its
    terminator; \<open>ord\<close> is the promotion of a byte to \<^verbatim>\<open>int\<close>. Mangled names are
    ASCII; for a byte above 0x7F the model takes \<^verbatim>\<open>isdigit\<close> and \<^verbatim>\<open>isxdigit\<close> to be
    false, as in the C locale, and the comparisons with letters come out the same for a
    signed and an unsigned \<^verbatim>\<open>char\<close>;
  \<^item> \<^verbatim>\<open>uint32_t\<close> is \<open>32 word\<close>, so \<^verbatim>\<open>char_code\<close> and \<^verbatim>\<open>arity\<close> wrap around;
  \<^item> \<^verbatim>\<open>size_t\<close> is \<open>nat\<close>: the sizes are those of objects in memory, which for a 64-bit
    \<^verbatim>\<open>size_t\<close> cannot reach the wrap-around;
  \<^item> a heap block is a list of cells, \<open>None\<close> for a byte never written; a pointer is a
    \<open>block option\<close>, \<open>None\<close> for \<^verbatim>\<open>NULL\<close>. There is one buffer, so the block is kept
    in the pointer itself;
  \<^item> every call of the allocator takes its outcome from a plan, the list of the outcomes
    of the calls to come (once the plan is used up, every call succeeds); \<open>live\<close> counts
    the blocks allocated and not freed;
  \<^item> a write through \<^verbatim>\<open>NULL\<close> or past the end of the block is undefined behaviour in C and
    a \<open>fault\<close> here.
\<close>

subsection \<open>Bytes and the escape tables\<close>

definition NUL :: char where
  "NUL = CHR 0x00"

definition ord :: "char \<Rightarrow> int" where
  "ord ch = of_char ch"

definition isdigit :: "char \<Rightarrow> bool" where
  "isdigit ch = (ord CHR ''0'' \<le> ord ch \<and> ord ch \<le> ord CHR ''9'')"

definition isxdigit :: "char \<Rightarrow> bool" where
  "isxdigit ch = (isdigit ch
     \<or> (ord CHR ''a'' \<le> ord ch \<and> ord ch \<le> ord CHR ''f'')
     \<or> (ord CHR ''A'' \<le> ord ch \<and> ord ch \<le> ord CHR ''F''))"

text \<open>The two tables, with the entries that the designated initialisers leave at zero.\<close>

definition z_chars :: "char list" where
  "z_chars =
    [CHR ''&'', CHR ''|'', CHR ''^'', CHR ''$'', CHR ''='', NUL, CHR ''>'', CHR ''#'',
     CHR ''.'', NUL, NUL, CHR ''<'', CHR ''-'', CHR ''!'', NUL, CHR ''+'', CHR 0x27,
     CHR 0x5C, CHR ''/'', CHR ''*'', CHR ''_'', CHR ''%'', NUL, NUL, NUL, CHR ''z'']"

definition Z_chars :: "char list" where
  "Z_chars =
    [CHR '':'', NUL, NUL, NUL, NUL, NUL, NUL, NUL, NUL, CHR ''('', CHR ''['', CHR '']'',
     NUL, NUL, NUL, CHR '')'', NUL, NUL, NUL, NUL, NUL, NUL, NUL, CHR ''Z'']"

subsection \<open>The heap and the output buffer\<close>

datatype fault = Null_Deref | Out_Of_Bounds

type_synonym block = "char option list"

type_synonym ptr = "block option"

record str_buf =
  capacity :: nat
  length' :: nat
  data :: ptr

record world =
  buf :: str_buf
  plan :: "bool list"
  live :: nat

definition granted :: "world \<Rightarrow> bool \<times> world" where
  "granted w = (case plan w of [] \<Rightarrow> (True, w) | b # bs \<Rightarrow> (b, w\<lparr>plan := bs\<rparr>))"

definition malloc :: "nat \<Rightarrow> world \<Rightarrow> ptr \<times> world" where
  "malloc n w =
    (let (ok, w1) = granted w
     in if ok then (Some (replicate n None), w1\<lparr>live := live w1 + 1\<rparr>) else (None, w1))"

text \<open>
  \<^verbatim>\<open>realloc\<close>: on \<^verbatim>\<open>NULL\<close> it is \<^verbatim>\<open>malloc\<close>; on success the old block is released and the
  new one holds the old bytes up to the smaller of the two sizes; on failure the old
  block stays allocated and \<^verbatim>\<open>NULL\<close> is returned.
\<close>

definition realloc :: "ptr \<Rightarrow> nat \<Rightarrow> world \<Rightarrow> ptr \<times> world" where
  "realloc p n w =
    (case p of
       None \<Rightarrow> malloc n w
     | Some blk \<Rightarrow>
         (let (ok, w1) = granted w
          in if ok then (Some (take n blk @ replicate (n - length blk) None), w1)
             else (None, w1)))"

definition free :: "ptr \<Rightarrow> world \<Rightarrow> world" where
  "free p w = (case p of None \<Rightarrow> w | Some blk \<Rightarrow> w\<lparr>live := live w - 1\<rparr>)"

text \<open>\<^verbatim>\<open>memcpy(dest, src, len)\<close> for a destination that is the start of a block.\<close>

definition memcpy :: "ptr \<Rightarrow> char list \<Rightarrow> fault + ptr" where
  "memcpy dest src =
    (case dest of
       None \<Rightarrow> Inl Null_Deref
     | Some blk \<Rightarrow>
         if length src \<le> length blk
         then Inr (Some (map Some src @ drop (length src) blk))
         else Inl Out_Of_Bounds)"

text \<open>The statement \<^verbatim>\<open>buf->data[buf->length++] = c\<close>.\<close>

definition put :: "char \<Rightarrow> world \<Rightarrow> fault + world" where
  "put ch w =
    (let b = buf w
     in case data b of
          None \<Rightarrow> Inl Null_Deref
        | Some blk \<Rightarrow>
            if length' b < length blk
            then Inr (w\<lparr>buf := b\<lparr>data := Some (blk[length' b := Some ch]),
                                  length' := length' b + 1\<rparr>\<rparr>)
            else Inl Out_Of_Bounds)"

fun puts :: "char list \<Rightarrow> world \<Rightarrow> fault + world" where
  "puts [] w = Inr w"
| "puts (ch # chs) w = (case put ch w of Inl e \<Rightarrow> Inl e | Inr w' \<Rightarrow> puts chs w')"

text \<open>The helpers return \<open>True\<close> for an error, as in the source.\<close>

definition str_buf_push :: "char \<Rightarrow> world \<Rightarrow> fault + (bool \<times> world)" where
  "str_buf_push ch w =
    (let b = buf w
     in if length' b = capacity b then
          (let cap = capacity b + capacity b div 2;
               (p, w1) = realloc (data b) cap w;
               w2 = w1\<lparr>buf := b\<lparr>capacity := cap, data := p\<rparr>\<rparr>
           in if p = None then Inr (True, w2)
              else (case put ch w2 of Inl e \<Rightarrow> Inl e | Inr w3 \<Rightarrow> Inr (False, w3)))
        else (case put ch w of Inl e \<Rightarrow> Inl e | Inr w3 \<Rightarrow> Inr (False, w3)))"

definition str_buf_reserve :: "nat \<Rightarrow> world \<Rightarrow> bool \<times> world" where
  "str_buf_reserve amt w =
    (let b = buf w;
         new_len = length' b + amt;
         cap = capacity b
     in if new_len > cap then
          (let cap' = (if new_len > cap + cap div 2 then new_len else cap + cap div 2);
               (p, w1) = realloc (data b) cap' w
           in if p = None then (True, w1\<lparr>buf := b\<lparr>data := p\<rparr>\<rparr>)
              else (False, w1\<lparr>buf := b\<lparr>data := p, capacity := cap'\<rparr>\<rparr>))
        else (False, w))"

definition str_buf_push_str :: "char list \<Rightarrow> world \<Rightarrow> fault + (bool \<times> world)" where
  "str_buf_push_str str w =
    (let len = length str;
         (err, w1) = str_buf_reserve len w
     in if err then Inr (True, w1)
        else (case memcpy (data (buf w1)) str of
                Inl e \<Rightarrow> Inl e
              | Inr p \<Rightarrow>
                  Inr (False, w1\<lparr>buf := (buf w1)\<lparr>data := p,
                                                 length' := length' (buf w1) + len\<rparr>\<rparr>)))"

text \<open>The conversion of a \<^verbatim>\<open>uint32_t\<close> to \<^verbatim>\<open>char\<close> keeps the low eight bits.\<close>

definition byte :: "32 word \<Rightarrow> char" where
  "byte x = char_of (unat x)"

definition str_buf_push_char_code :: "32 word \<Rightarrow> world \<Rightarrow> fault + (bool \<times> world)" where
  "str_buf_push_char_code char_code w =
    (let (err, w1) = str_buf_reserve 4 w;
         pushed = (\<lambda>r. case r of Inl e \<Rightarrow> Inl e | Inr w2 \<Rightarrow> Inr (False, w2))
     in if err then Inr (True, w1)
        else if char_code \<le> 0x7F then
          pushed (puts [byte char_code] w1)
        else if char_code \<le> 0x7FF then
          pushed (puts [byte ((drop_bit 6 char_code AND 0x1F) OR 0xC0),
                      byte ((drop_bit 0 char_code AND 0x3F) OR 0x80)] w1)
        else if char_code \<le> 0xFFFF then
          pushed (puts [byte ((drop_bit 12 char_code AND 0x0F) OR 0xE0),
                      byte ((drop_bit 6 char_code AND 0x3F) OR 0x80),
                      byte ((drop_bit 0 char_code AND 0x3F) OR 0x80)] w1)
        else if char_code \<le> 0x10FFFF then
          pushed (puts [byte ((drop_bit 18 char_code AND 0x07) OR 0xF0),
                      byte ((drop_bit 12 char_code AND 0x3F) OR 0x80),
                      byte ((drop_bit 6 char_code AND 0x3F) OR 0x80),
                      byte ((drop_bit 0 char_code AND 0x3F) OR 0x80)] w1)
        else Inr (True, w1))"

subsection \<open>The scanner\<close>

text \<open>
  The cursor is the lookahead byte \<^verbatim>\<open>c\<close> and the pointer \<^verbatim>\<open>mangled\<close>, the list of the
  bytes from the pointer to the terminator. \<^verbatim>\<open>ADVANCE\<close> is \<^verbatim>\<open>c = (*mangled++)\<close>; at
  the end of the list it reads the terminator.
\<close>

definition ADVANCE :: "char list \<Rightarrow> char \<times> char list" where
  "ADVANCE mangled = (case mangled of [] \<Rightarrow> (NUL, []) | x # xs \<Rightarrow> (x, xs))"

datatype outcome = Returned block nat | Failed nat | Crashed fault

text \<open>
  The label \<^verbatim>\<open>fail\<close>; \<open>Failed n\<close> is the return of \<^verbatim>\<open>NULL\<close> with \<open>n\<close> blocks still
  allocated, \<open>Returned blk n\<close> the return of the block \<open>blk\<close> with \<open>n\<close> blocks allocated,
  the returned one among them.
\<close>

definition fail :: "world \<Rightarrow> outcome" where
  "fail w = Failed (live (free (data (buf w)) w))"

definition undefined_behaviour :: "fault + 'a \<Rightarrow> outcome + 'a" where
  "undefined_behaviour r = (case r of Inl e \<Rightarrow> Inl (Crashed e) | Inr x \<Rightarrow> Inr x)"

definition and_then :: "outcome + 'a \<Rightarrow> ('a \<Rightarrow> outcome + 'b) \<Rightarrow> outcome + 'b" where
  "and_then r f = (case r of Inl out \<Rightarrow> Inl out | Inr x \<Rightarrow> f x)"

definition or_fail :: "fault + (bool \<times> world) \<Rightarrow> outcome + world" where
  "or_fail r =
    (case r of
       Inl e \<Rightarrow> Inl (Crashed e)
     | Inr (err, w) \<Rightarrow> if err then Inl (fail w) else Inr w)"

definition PUSH :: "char \<Rightarrow> world \<Rightarrow> outcome + world" where
  "PUSH ch w = or_fail (str_buf_push ch w)"

definition PUSH_STR :: "char list \<Rightarrow> world \<Rightarrow> outcome + world" where
  "PUSH_STR s w = or_fail (str_buf_push_str s w)"

definition RESERVE :: "nat \<Rightarrow> world \<Rightarrow> outcome + world" where
  "RESERVE n w = or_fail (Inr (str_buf_reserve n w))"

text \<open>The raw writes of the scanner, \<^verbatim>\<open>buf.data[buf.length++] = ch\<close>.\<close>

definition WRITE :: "char list \<Rightarrow> world \<Rightarrow> outcome + world" where
  "WRITE chs w = undefined_behaviour (puts chs w)"

text \<open>
  The \<^verbatim>\<open>do ... while (isxdigit(PEEK))\<close> loop of the numeric escape. The int
  \<^verbatim>\<open>PEEK - '0'\<close> or \<^verbatim>\<open>10 + PEEK - 'a'\<close> is converted to \<^verbatim>\<open>uint32_t\<close> and added.
\<close>

function hex_run :: "32 word \<Rightarrow> char \<Rightarrow> char list \<Rightarrow> 32 word \<times> char \<times> char list" where
  "hex_run char_code c mangled =
    (let char_code = char_code * 16;
         char_code = (if ord c \<le> ord CHR ''9''
                      then char_code + word_of_int (ord c - ord CHR ''0'')
                      else char_code + word_of_int (10 + ord c - ord CHR ''a''));
         (c', mangled') = ADVANCE mangled
     in if isxdigit c' then hex_run char_code c' mangled' else (char_code, c', mangled'))"
  by pat_completeness auto
termination
  by (relation "measure (\<lambda>(char_code, c, mangled). length mangled)")
     (auto simp: ADVANCE_def isxdigit_def isdigit_def ord_def NUL_def split: list.splits)

text \<open>The \<^verbatim>\<open>do ... while (isdigit(PEEK))\<close> loop of the arity.\<close>

function dec_run :: "32 word \<Rightarrow> char \<Rightarrow> char list \<Rightarrow> 32 word \<times> char \<times> char list" where
  "dec_run arity c mangled =
    (let arity = arity * 10;
         arity = arity + word_of_int (ord c - ord CHR ''0'');
         (c', mangled') = ADVANCE mangled
     in if isdigit c' then dec_run arity c' mangled' else (arity, c', mangled'))"
  by pat_completeness auto
termination
  by (relation "measure (\<lambda>(arity, c, mangled). length mangled)")
     (auto simp: ADVANCE_def isdigit_def ord_def NUL_def split: list.splits)

text \<open>The loop \<^verbatim>\<open>for (size_t i = 1; i < arity; i++) buf.data[buf.length++] = ','\<close>.\<close>

function commas :: "nat \<Rightarrow> nat \<Rightarrow> world \<Rightarrow> outcome + world" where
  "commas i arity w =
    (if i < arity
     then (case WRITE [CHR '',''] w of Inl out \<Rightarrow> Inl out | Inr w' \<Rightarrow> commas (i + 1) arity w')
     else Inr w)"
  by pat_completeness auto
termination
  by (relation "measure (\<lambda>(i, arity, w). arity - i)") auto

type_synonym scanner = "char \<times> char list \<times> world"

definition CONTINUE :: "char list \<Rightarrow> world \<Rightarrow> outcome + scanner" where
  "CONTINUE mangled w = (let (c, mangled') = ADVANCE mangled in Inr (c, mangled', w))"

text \<open>\<^verbatim>\<open>case 'z'\<close>.\<close>

definition escape_lower :: "char list \<Rightarrow> world \<Rightarrow> outcome + scanner" where
  "escape_lower mangled0 w =
    (let (c, mangled) = ADVANCE mangled0
     in if isdigit c then
          (let (char_code, c, mangled) = hex_run 0 c mangled
           in if c \<noteq> CHR ''U'' then Inl (fail w)
              else and_then (or_fail (str_buf_push_char_code char_code w))
                     (\<lambda>w. CONTINUE mangled w))
        else if ord c < ord CHR ''a'' \<or> ord c > ord CHR ''z'' then Inl (fail w)
        else
          (let out = z_chars ! nat (ord c - ord CHR ''a'')
           in if out = NUL then Inl (fail w)
              else and_then (PUSH out w) (\<lambda>w. CONTINUE mangled w)))"

text \<open>\<^verbatim>\<open>case 'Z'\<close>. The sums \<^verbatim>\<open>arity + 1\<close> and \<^verbatim>\<open>arity + 3\<close> are 32-bit.\<close>

definition escape_upper :: "char list \<Rightarrow> world \<Rightarrow> outcome + scanner" where
  "escape_upper mangled0 w =
    (let (c, mangled) = ADVANCE mangled0
     in if isdigit c then
          (let (arity, c, mangled) = dec_run 0 c mangled
           in if c = CHR ''T'' then
                (let (c, mangled) = ADVANCE mangled
                 in if arity = 0 then
                      and_then (RESERVE 2 w) (\<lambda>w.
                      and_then (WRITE [CHR ''('', CHR '')''] w) (\<lambda>w.
                      Inr (c, mangled, w)))
                    else if arity = 1 then Inl (fail w)
                    else
                      and_then (RESERVE (unat (arity + 1)) w) (\<lambda>w.
                      and_then (WRITE [CHR ''(''] w) (\<lambda>w.
                      and_then (commas 1 (unat arity) w) (\<lambda>w.
                      and_then (WRITE [CHR '')''] w) (\<lambda>w.
                      Inr (c, mangled, w))))))
              else if c = CHR ''H'' then
                (let (c, mangled) = ADVANCE mangled
                 in if arity = 0 then Inl (fail w)
                    else if arity = 1 then
                      and_then (PUSH_STR ''(# #)'' w) (\<lambda>w. Inr (c, mangled, w))
                    else
                      and_then (RESERVE (unat (arity + 3)) w) (\<lambda>w.
                      and_then (WRITE [CHR ''('', CHR ''#''] w) (\<lambda>w.
                      and_then (commas 1 (unat arity) w) (\<lambda>w.
                      and_then (WRITE [CHR ''#'', CHR '')''] w) (\<lambda>w.
                      Inr (c, mangled, w))))))
              else Inl (fail w))
        else if ord c < ord CHR ''C'' \<or> ord c > ord CHR ''Z'' then Inl (fail w)
        else
          (let out = Z_chars ! nat (ord c - ord CHR ''C'')
           in if out = NUL then Inl (fail w)
              else and_then (PUSH out w) (\<lambda>w. CONTINUE mangled w)))"

text \<open>\<^verbatim>\<open>case '\0'\<close>: the terminator is pushed and the block is trimmed to its length.\<close>

definition finish :: "world \<Rightarrow> outcome" where
  "finish w =
    (case PUSH NUL w of
       Inl out \<Rightarrow> out
     | Inr w1 \<Rightarrow>
         (let (res, w2) = realloc (data (buf w1)) (length' (buf w1)) w1
          in case res of None \<Rightarrow> fail w2 | Some blk \<Rightarrow> Returned blk (live w2)))"

text \<open>
  One turn of \<^verbatim>\<open>while (true) switch (PEEK)\<close>: \<open>Inl\<close> is a return, \<open>Inr\<close> a
  \<^verbatim>\<open>continue\<close> with the new cursor and buffer.
\<close>

definition step :: "char \<Rightarrow> char list \<Rightarrow> world \<Rightarrow> outcome + scanner" where
  "step c mangled w =
    (if c = CHR ''z'' then escape_lower mangled w
     else if c = CHR ''Z'' then escape_upper mangled w
     else if c = NUL then Inl (finish w)
     else and_then (PUSH c w) (\<lambda>w. CONTINUE mangled w))"

text \<open>
  The loop itself. It is defined without a termination argument: that it returns is a
  theorem below, not a property of the definition.
\<close>

partial_function (option) scan :: "char \<Rightarrow> char list \<Rightarrow> world \<Rightarrow> outcome option" where
  "scan c mangled w =
    (case step c mangled w of
       Inl out \<Rightarrow> Some out
     | Inr (c', mangled', w') \<Rightarrow> scan c' mangled' w')"

declare scan.simps [code]

definition DEFAULT_BUF_SIZE :: nat where
  "DEFAULT_BUF_SIZE = 20"

text \<open>
  \<^verbatim>\<open>haskell_demangle\<close>, under a plan for the allocator. The result of the first
  \<^verbatim>\<open>malloc\<close> is stored as it is.
\<close>

definition haskell_demangle :: "bool list \<Rightarrow> char list \<Rightarrow> outcome option" where
  "haskell_demangle allocs mangled0 =
    (let w0 = \<lparr>buf = \<lparr>capacity = DEFAULT_BUF_SIZE, length' = 0, data = None\<rparr>,
               plan = allocs, live = 0\<rparr>;
         (p, w1) = malloc DEFAULT_BUF_SIZE w0;
         w = w1\<lparr>buf := \<lparr>capacity = DEFAULT_BUF_SIZE, length' = 0, data = p\<rparr>\<rparr>;
         (c, mangled) = ADVANCE mangled0
     in scan c mangled w)"

text \<open>The block that holds a C string: its bytes and the terminator.\<close>

definition c_string :: "char list \<Rightarrow> block" where
  "c_string s = map Some s @ [Some NUL]"

subsection \<open>Notions used in the statements\<close>

text \<open>The bytes written so far: the first \<open>length'\<close> cells of the block.\<close>

definition contents :: "world \<Rightarrow> block" where
  "contents w = (case data (buf w) of None \<Rightarrow> [] | Some blk \<Rightarrow> take (length' (buf w)) blk)"

text \<open>
  The invariant of the buffer between two turns of the loop: the block is there, it has
  \<open>capacity\<close> cells, the length is within it, and the capacity is one that
  \<^verbatim>\<open>capacity += capacity / 2\<close> increases.
\<close>

definition sound :: "world \<Rightarrow> bool" where
  "sound w =
    (case data (buf w) of
       None \<Rightarrow> False
     | Some blk \<Rightarrow> length blk = capacity (buf w) \<and> length' (buf w) \<le> capacity (buf w)
         \<and> 2 \<le> capacity (buf w))"

text \<open>Sufficient memory: no allocation to come fails.\<close>

definition plentiful :: "world \<Rightarrow> bool" where
  "plentiful w = list_all id (plan w)"

text \<open>The input still to be read, the lookahead byte included.\<close>

definition remaining :: "char \<Rightarrow> char list \<Rightarrow> nat" where
  "remaining c mangled = length mangled + (if c = NUL then 0 else 1)"

text \<open>The number that a run of digits denotes, in base 16 and in base 10.\<close>

definition lower_hex :: "char \<Rightarrow> bool" where
  "lower_hex ch = (isdigit ch \<or> (ord CHR ''a'' \<le> ord ch \<and> ord ch \<le> ord CHR ''f''))"

definition hex_digit :: "char \<Rightarrow> nat" where
  "hex_digit ch =
    (if isdigit ch then nat (ord ch - ord CHR ''0'') else nat (10 + ord ch - ord CHR ''a''))"

fun hex_value :: "nat \<Rightarrow> char list \<Rightarrow> nat" where
  "hex_value v [] = v"
| "hex_value v (ch # chs) = hex_value (16 * v + hex_digit ch) chs"

definition dec_digit :: "char \<Rightarrow> nat" where
  "dec_digit ch = nat (ord ch - ord CHR ''0'')"

fun dec_value :: "nat \<Rightarrow> char list \<Rightarrow> nat" where
  "dec_value v [] = v"
| "dec_value v (ch # chs) = dec_value (10 * v + dec_digit ch) chs"

text \<open>Two buffers of the starting capacity: an empty one, and one that holds \<open>a\<close>.\<close>

definition empty_buffer :: world where
  "empty_buffer =
    \<lparr>buf = \<lparr>capacity = 20, length' = 0, data = Some (replicate 20 None)\<rparr>,
     plan = [], live = 1\<rparr>"

definition holding_a :: world where
  "holding_a =
    \<lparr>buf = \<lparr>capacity = 20, length' = 1, data = Some (Some CHR ''a'' # replicate 19 None)\<rparr>,
     plan = [], live = 1\<rparr>"

text \<open>
  A turn of the loop emits a text: it continues behind \<open>tail\<close>, with the text appended
  to the contents of a buffer that is sound again, and with the allocator as it was.
\<close>

definition emits :: "char list \<Rightarrow> char list \<Rightarrow> world \<Rightarrow> outcome + scanner \<Rightarrow> bool" where
  "emits txt tail w r =
    (case r of
       Inl out \<Rightarrow> False
     | Inr (c, mangled, w') \<Rightarrow>
         (c, mangled) = ADVANCE tail \<and> contents w' = contents w @ map Some txt
         \<and> sound w' \<and> plentiful w' \<and> live w' = live w)"

section \<open>Evaluation\<close>

declare hex_run.simps [simp del] dec_run.simps [simp del] commas.simps [simp del]

lemmas model_defs =
  haskell_demangle_def DEFAULT_BUF_SIZE_def malloc_def granted_def ADVANCE_def step_def
  escape_upper_def escape_lower_def NUL_def isdigit_def isxdigit_def ord_def Z_chars_def
  z_chars_def and_then_def PUSH_def PUSH_STR_def RESERVE_def WRITE_def
  undefined_behaviour_def or_fail_def str_buf_push_def str_buf_reserve_def
  str_buf_push_str_def str_buf_push_char_code_def byte_def put_def memcpy_def CONTINUE_def
  finish_def realloc_def free_def fail_def c_string_def contents_def

lemma replicate_unfold: "0 < n \<Longrightarrow> replicate n x = x # replicate (n - 1) x"
  by (cases n) simp_all

lemmas eval_simps =
  model_defs scan.simps hex_run.simps dec_run.simps commas.simps replicate_unfold
  char_of_def bit_0

section \<open>The output buffer\<close>

lemma granted_plentiful:
  "plentiful w \<Longrightarrow> \<exists>w1. granted w = (True, w1) \<and> plentiful w1 \<and> buf w1 = buf w \<and> live w1 = live w"
  by (cases "plan w") (auto simp: granted_def plentiful_def)

lemma take_Suc_update: "n < length xs \<Longrightarrow> take (Suc n) (xs[n := v]) = take n xs @ [v]"
  by (simp add: take_Suc_conv_app_nth)

lemma put_room:
  assumes "sound w" "length' (buf w) < capacity (buf w)"
  shows "\<exists>w'. put ch w = Inr w' \<and> sound w' \<and> plan w' = plan w \<and> live w' = live w
           \<and> capacity (buf w') = capacity (buf w)
           \<and> length' (buf w') = length' (buf w) + 1
           \<and> contents w' = contents w @ [Some ch]"
  using assms
  by (auto simp: put_def sound_def contents_def Let_def take_Suc_update split: option.splits)

lemma puts_room:
  assumes "sound w" "length' (buf w) + length chs \<le> capacity (buf w)"
  shows "\<exists>w'. puts chs w = Inr w' \<and> sound w' \<and> plan w' = plan w \<and> live w' = live w
           \<and> capacity (buf w') = capacity (buf w)
           \<and> length' (buf w') = length' (buf w) + length chs
           \<and> contents w' = contents w @ map Some chs"
  using assms
proof (induction chs arbitrary: w)
  case Nil
  then show ?case by simp
next
  case (Cons ch chs)
  then have "length' (buf w) < capacity (buf w)" by simp
  from put_room [OF Cons.prems(1) this, of ch] obtain w1 where
    w1: "put ch w = Inr w1" "sound w1" "plan w1 = plan w" "live w1 = live w"
      "capacity (buf w1) = capacity (buf w)" "length' (buf w1) = length' (buf w) + 1"
      "contents w1 = contents w @ [Some ch]"
    by blast
  have "length' (buf w1) + length chs \<le> capacity (buf w1)"
    using w1 Cons.prems(2) by simp
  from Cons.IH [OF w1(2) this] w1 show ?case by auto
qed

lemma WRITE_room:
  assumes "sound w" "length' (buf w) + length chs \<le> capacity (buf w)"
  shows "\<exists>w'. WRITE chs w = Inr w' \<and> sound w' \<and> plan w' = plan w \<and> live w' = live w
           \<and> capacity (buf w') = capacity (buf w)
           \<and> length' (buf w') = length' (buf w) + length chs
           \<and> contents w' = contents w @ map Some chs"
  using puts_room [OF assms] by (auto simp: WRITE_def undefined_behaviour_def)

lemma commas_room:
  assumes "sound w" "length' (buf w) + (n - i) \<le> capacity (buf w)"
  shows "\<exists>w'. commas i n w = Inr w' \<and> sound w' \<and> plan w' = plan w \<and> live w' = live w
           \<and> capacity (buf w') = capacity (buf w)
           \<and> length' (buf w') = length' (buf w) + (n - i)
           \<and> contents w' = contents w @ replicate (n - i) (Some CHR '','')"
  using assms
proof (induction "n - i" arbitrary: i w)
  case 0
  then show ?case by (subst commas.simps) simp
next
  case (Suc k)
  then have lt: "i < n" and k: "k = n - (i + 1)" by simp_all
  have "length' (buf w) + length [CHR '',''] \<le> capacity (buf w)"
    using Suc.prems(2) lt by simp
  from WRITE_room [OF Suc.prems(1) this] obtain w1 where
    w1: "WRITE [CHR '',''] w = Inr w1" "sound w1" "plan w1 = plan w" "live w1 = live w"
      "capacity (buf w1) = capacity (buf w)" "length' (buf w1) = length' (buf w) + 1"
      "contents w1 = contents w @ [Some CHR '','']"
    by auto
  have "length' (buf w1) + (n - (i + 1)) \<le> capacity (buf w1)"
    using w1 Suc.prems(2) lt by simp
  from Suc.hyps(1) [OF k w1(2) this] obtain w' where
    w': "commas (i + 1) n w1 = Inr w'" "sound w'" "plan w' = plan w1" "live w' = live w1"
      "capacity (buf w') = capacity (buf w1)"
      "length' (buf w') = length' (buf w1) + (n - (i + 1))"
      "contents w' = contents w1 @ replicate (n - (i + 1)) (Some CHR '','')"
    by blast
  have r: "replicate (n - i) (Some CHR '','') = Some CHR '','' # replicate (n - (i + 1)) (Some CHR '','')"
    using lt by (simp add: replicate_unfold)
  have "commas i n w = Inr w'"
    using lt w1(1) w'(1) by (subst commas.simps) simp
  then show ?case using w' w1 lt r by simp
qed

lemma realloc_grow:
  assumes "plentiful w" "data (buf w) = Some blk" "length blk \<le> n"
  shows "\<exists>w1. realloc (data (buf w)) n w = (Some (blk @ replicate (n - length blk) None), w1)
           \<and> plentiful w1 \<and> buf w1 = buf w \<and> live w1 = live w"
  using granted_plentiful [OF assms(1)] assms(2,3)
  by (auto simp: realloc_def)

lemma reserve_room:
  assumes "sound w" "plentiful w"
  shows "\<exists>w'. str_buf_reserve n w = (False, w') \<and> sound w' \<and> plentiful w' \<and> live w' = live w
           \<and> length' (buf w') = length' (buf w)
           \<and> length' (buf w) + n \<le> capacity (buf w')
           \<and> contents w' = contents w"
proof (cases "length' (buf w) + n > capacity (buf w)")
  case False
  then show ?thesis using assms by (simp add: str_buf_reserve_def Let_def)
next
  case True
  from assms(1) obtain blk where blk: "data (buf w) = Some blk"
    "length blk = capacity (buf w)" "2 \<le> capacity (buf w)" "length' (buf w) \<le> capacity (buf w)"
    by (auto simp: sound_def split: option.splits)
  define cap' where "cap' = (if length' (buf w) + n > capacity (buf w) + capacity (buf w) div 2
    then length' (buf w) + n else capacity (buf w) + capacity (buf w) div 2)"
  have grow: "length blk \<le> cap'" "length' (buf w) + n \<le> cap'"
    using blk True by (auto simp: cap'_def)
  from realloc_grow [OF assms(2) blk(1) grow(1)] obtain w1 where
    w1: "realloc (data (buf w)) cap' w = (Some (blk @ replicate (cap' - length blk) None), w1)"
      "plentiful w1" "buf w1 = buf w" "live w1 = live w"
    by blast
  let ?w' = "w1\<lparr>buf := (buf w)\<lparr>data := Some (blk @ replicate (cap' - length blk) None),
                                    capacity := cap'\<rparr>\<rparr>"
  have "str_buf_reserve n w = (False, ?w')"
    using True w1(1) by (simp add: str_buf_reserve_def Let_def cap'_def)
  moreover have "sound ?w'" using blk grow by (simp add: sound_def)
  moreover have "plentiful ?w'" using w1(2) by (simp add: plentiful_def)
  moreover have "contents ?w' = contents w" using blk by (simp add: contents_def)
  ultimately show ?thesis using w1 grow by simp
qed

lemma RESERVE_room:
  assumes "sound w" "plentiful w"
  shows "\<exists>w'. RESERVE n w = Inr w' \<and> sound w' \<and> plentiful w' \<and> live w' = live w
           \<and> length' (buf w') = length' (buf w)
           \<and> length' (buf w) + n \<le> capacity (buf w')
           \<and> contents w' = contents w"
  using reserve_room [OF assms, of n] by (auto simp: RESERVE_def or_fail_def)

lemma str_buf_push_sound:
  assumes "sound w" "plentiful w"
  shows "\<exists>w'. str_buf_push ch w = Inr (False, w') \<and> sound w' \<and> plentiful w'
           \<and> live w' = live w \<and> contents w' = contents w @ [Some ch]"
proof (cases "length' (buf w) = capacity (buf w)")
  case False
  then have "length' (buf w) < capacity (buf w)"
    using assms(1) by (auto simp: sound_def split: option.splits)
  from put_room [OF assms(1) this, of ch] assms(2) False show ?thesis
    by (auto simp: str_buf_push_def Let_def plentiful_def)
next
  case True
  from assms(1) obtain blk where blk: "data (buf w) = Some blk"
    "length blk = capacity (buf w)" "2 \<le> capacity (buf w)"
    by (auto simp: sound_def split: option.splits)
  let ?cap = "capacity (buf w) + capacity (buf w) div 2"
  have grow: "length blk \<le> ?cap" using blk by simp
  from realloc_grow [OF assms(2) blk(1) grow] obtain w1 where
    w1: "realloc (data (buf w)) ?cap w = (Some (blk @ replicate (?cap - length blk) None), w1)"
      "plentiful w1" "buf w1 = buf w" "live w1 = live w"
    by blast
  let ?w2 = "w1\<lparr>buf := (buf w)\<lparr>capacity := ?cap,
                 data := Some (blk @ replicate (?cap - length blk) None)\<rparr>\<rparr>"
  have s2: "sound ?w2" using blk True by (simp add: sound_def)
  have lt: "length' (buf ?w2) < capacity (buf ?w2)" using blk True by simp
  have c2: "contents ?w2 = contents w" using blk True by (simp add: contents_def)
  from put_room [OF s2 lt, of ch] obtain w' where
    w': "put ch ?w2 = Inr w'" "sound w'" "plan w' = plan ?w2" "live w' = live ?w2"
      "contents w' = contents ?w2 @ [Some ch]"
    by blast
  have "str_buf_push ch w = Inr (False, w')"
    using True w1(1) w'(1) by (simp add: str_buf_push_def Let_def)
  moreover have "plentiful w'" using w'(3) w1(2) by (simp add: plentiful_def)
  ultimately show ?thesis using w' w1 c2 by simp
qed

lemma PUSH_sound:
  assumes "sound w" "plentiful w"
  shows "\<exists>w'. PUSH ch w = Inr w' \<and> sound w' \<and> plentiful w'
           \<and> live w' = live w \<and> contents w' = contents w @ [Some ch]"
  using str_buf_push_sound [OF assms, of ch] by (auto simp: PUSH_def or_fail_def)

lemma finish_sound:
  assumes "sound w" "plentiful w"
  shows "finish w = Returned (contents w @ [Some NUL]) (live w)"
proof -
  from PUSH_sound [OF assms, of NUL] obtain w1 where
    w1: "PUSH NUL w = Inr w1" "sound w1" "plentiful w1" "live w1 = live w"
      "contents w1 = contents w @ [Some NUL]"
    by blast
  from w1(2) obtain blk where blk: "data (buf w1) = Some blk" "length' (buf w1) \<le> length blk"
    by (auto simp: sound_def split: option.splits)
  from granted_plentiful [OF w1(3)] obtain w2 where
    w2: "granted w1 = (True, w2)" "live w2 = live w1"
    by blast
  have "realloc (data (buf w1)) (length' (buf w1)) w1 = (Some (contents w1), w2)"
    using blk w2 by (simp add: realloc_def contents_def)
  then show ?thesis using w1 w2 by (simp add: finish_def)
qed

text \<open>
  What \<^verbatim>\<open>str_buf_push_str\<close> does: on a sound buffer, with memory, it succeeds, the
  length grows by that of the string, and the string is at the start of the buffer.
\<close>

lemma push_str_at_start:
  assumes "sound w" "plentiful w"
  shows "\<exists>w'. str_buf_push_str s w = Inr (False, w') \<and> sound w' \<and> plentiful w'
           \<and> live w' = live w
           \<and> length' (buf w') = length' (buf w) + length s
           \<and> take (length s) (contents w') = map Some s"
proof -
  from reserve_room [OF assms, of "length s"] obtain w1 where
    w1: "str_buf_reserve (length s) w = (False, w1)" "sound w1" "plentiful w1"
      "live w1 = live w" "length' (buf w1) = length' (buf w)"
      "length' (buf w) + length s \<le> capacity (buf w1)"
    by blast
  from w1(2) obtain blk where blk: "data (buf w1) = Some blk" "length blk = capacity (buf w1)"
    "2 \<le> capacity (buf w1)"
    by (auto simp: sound_def split: option.splits)
  have fits: "length s \<le> length blk" using blk w1(6) by simp
  let ?w' = "w1\<lparr>buf := (buf w1)\<lparr>data := Some (map Some s @ drop (length s) blk),
                                     length' := length' (buf w1) + length s\<rparr>\<rparr>"
  have "str_buf_push_str s w = Inr (False, ?w')"
    using w1(1) blk(1) fits by (simp add: str_buf_push_str_def memcpy_def Let_def)
  moreover have "sound ?w'" using blk fits w1(5,6) by (simp add: sound_def)
  moreover have "plentiful ?w'" using w1(3) by (simp add: plentiful_def)
  moreover have "take (length s) (contents ?w') = map Some s"
    by (simp add: contents_def)
  ultimately show ?thesis using w1(4,5) by simp
qed

text \<open>
  C1. \<^verbatim>\<open>str_buf_push_str\<close> is to append: after a successful call the buffer should hold
  its old contents followed by the new bytes. The source copies to \<^verbatim>\<open>buf->data\<close>, not to
  \<^verbatim>\<open>buf->data + buf->length\<close>: on a buffer that holds \<open>a\<close> the call with \<open>(# #)\<close>
  succeeds, overwrites the \<open>a\<close> and leaves the sixth byte of the new length unwritten.
\<close>

theorem push_str_overwrites:
  "\<exists>w'. str_buf_push_str ''(# #)'' holding_a = Inr (False, w')
      \<and> contents holding_a = [Some CHR ''a'']
      \<and> contents w' = map Some ''(# #)'' @ [None]
      \<and> contents w' \<noteq> contents holding_a @ map Some ''(# #)''"
  by (simp add: holding_a_def eval_simps)

text \<open>
  C2. Every allocation is to be checked, and a failed one is to end in the failure value
  with all storage released. The result of the first \<^verbatim>\<open>malloc\<close> is not checked: when it
  fails, the empty input is written through \<^verbatim>\<open>NULL\<close>. And when the \<^verbatim>\<open>realloc\<close> of
  \<^verbatim>\<open>str_buf_push\<close> fails (here at the 21st byte), its \<^verbatim>\<open>NULL\<close> has replaced the only
  pointer to the old block, which stays allocated after the failure return.
\<close>

theorem allocation_failure_mishandled:
  "haskell_demangle [False] '''' = Some (Crashed Null_Deref)
   \<and> haskell_demangle [True, False] ''abcdefghijklmnopqrstu'' = Some (Failed 1)"
  by (simp add: eval_simps)

section \<open>Termination\<close>

lemma ADVANCE_remaining: "ADVANCE m = (c', m') \<Longrightarrow> remaining c' m' \<le> length m"
  by (auto simp: ADVANCE_def remaining_def split: list.splits)

lemma length_le_remaining: "length m \<le> remaining c m"
  by (simp add: remaining_def)

lemma not_isxdigit_NUL: "\<not> isxdigit NUL"
  by (simp add: isxdigit_def isdigit_def ord_def NUL_def)

lemma not_isdigit_NUL: "\<not> isdigit NUL"
  by (simp add: isdigit_def ord_def NUL_def)

lemma hex_run_remaining:
  "hex_run code c m = (code', c', m') \<Longrightarrow> remaining c' m' \<le> length m"
proof (induction m arbitrary: code c)
  case Nil
  then show ?case
    by (subst (asm) hex_run.simps) (auto simp: ADVANCE_def Let_def not_isxdigit_NUL remaining_def split: if_splits)
next
  case (Cons x xs)
  from Cons.prems show ?case
    by (subst (asm) hex_run.simps)
       (auto simp: ADVANCE_def Let_def remaining_def split: if_splits dest!: Cons.IH)
qed

lemma dec_run_remaining:
  "dec_run arity c m = (arity', c', m') \<Longrightarrow> remaining c' m' \<le> length m"
proof (induction m arbitrary: arity c)
  case Nil
  then show ?case
    by (subst (asm) dec_run.simps) (auto simp: ADVANCE_def Let_def not_isdigit_NUL remaining_def)
next
  case (Cons x xs)
  from Cons.prems show ?case
    by (subst (asm) dec_run.simps)
       (auto simp: ADVANCE_def Let_def remaining_def split: if_splits dest!: Cons.IH)
qed

lemma and_then_Inr: "and_then r f = Inr y \<longleftrightarrow> (\<exists>x. r = Inr x \<and> f x = Inr y)"
  by (cases r) (simp_all add: and_then_def)

lemma CONTINUE_remaining: "CONTINUE m w = Inr (c', m', w') \<Longrightarrow> remaining c' m' \<le> length m"
  by (auto simp: CONTINUE_def split: prod.splits dest: ADVANCE_remaining)

lemma escape_lower_remaining:
  assumes "escape_lower m w = Inr (c', m', w')"
  shows "remaining c' m' \<le> length m"
proof -
  obtain c1 m1 where A: "ADVANCE m = (c1, m1)" by (cases "ADVANCE m")
  obtain code c2 m2 where H: "hex_run 0 c1 m1 = (code, c2, m2)" by (cases "hex_run 0 c1 m1")
  have 1: "length m1 \<le> length m"
    using ADVANCE_remaining [OF A] length_le_remaining [of m1 c1] by simp
  have 2: "length m2 \<le> length m1"
    using hex_run_remaining [OF H] length_le_remaining [of m2 c2] by simp
  from assms show ?thesis
    using 1 2
    by (auto simp: escape_lower_def A H Let_def and_then_Inr split: if_splits
             dest!: CONTINUE_remaining)
qed

lemma escape_upper_remaining:
  assumes "escape_upper m w = Inr (c', m', w')"
  shows "remaining c' m' \<le> length m"
proof -
  obtain c1 m1 where A: "ADVANCE m = (c1, m1)" by (cases "ADVANCE m")
  obtain arity c2 m2 where H: "dec_run 0 c1 m1 = (arity, c2, m2)" by (cases "dec_run 0 c1 m1")
  obtain c3 m3 where B: "ADVANCE m2 = (c3, m3)" by (cases "ADVANCE m2")
  have 1: "length m1 \<le> length m"
    using ADVANCE_remaining [OF A] length_le_remaining [of m1 c1] by simp
  have 2: "length m2 \<le> length m1"
    using dec_run_remaining [OF H] length_le_remaining [of m2 c2] by simp
  have 3: "remaining c3 m3 \<le> length m2"
    by (rule ADVANCE_remaining [OF B])
  from assms show ?thesis
    using 1 2 3
    by (auto simp: escape_upper_def A H B Let_def and_then_Inr split: if_splits
             dest!: CONTINUE_remaining)
qed

lemma step_progress:
  assumes "step c m w = Inr (c', m', w')"
  shows "remaining c' m' < remaining c m"
proof -
  have z: "remaining CHR ''z'' m = length m + 1" "remaining CHR ''Z'' m = length m + 1"
    by (simp_all add: remaining_def NUL_def)
  from assms show ?thesis
    using z
    by (auto simp: step_def and_then_Inr split: if_splits
             dest!: escape_lower_remaining escape_upper_remaining CONTINUE_remaining)
       (simp add: remaining_def)
qed

lemma scan_total: "\<exists>out. scan c m w = Some out"
proof (induction "remaining c m" arbitrary: c m w rule: less_induct)
  case less
  show ?case
  proof (cases "step c m w")
    case (Inl out)
    then show ?thesis by (subst scan.simps) simp
  next
    case (Inr s)
    obtain c' m' w' where s: "s = (c', m', w')" by (cases s)
    have "remaining c' m' < remaining c m"
      using Inr s by (auto intro: step_progress)
    from less [OF this] obtain out where "scan c' m' w' = Some out" by blast
    then show ?thesis by (subst scan.simps) (simp add: Inr s)
  qed
qed

text \<open>
  C9. The decoder returns on every input, under every plan of the allocator: a turn of
  the loop that does not return leaves less input to read (\<open>step_progress\<close>), so the
  loop, defined with no termination argument, has a result.
\<close>

theorem haskell_demangle_terminates: "\<exists>out. haskell_demangle allocs mangled = Some out"
  by (simp add: haskell_demangle_def Let_def scan_total split: prod.splits)

section \<open>Literal input\<close>

lemma scan_literal:
  assumes "sound w" "plentiful w"
    and "\<forall>ch\<in>set s. ch \<noteq> CHR ''z'' \<and> ch \<noteq> CHR ''Z'' \<and> ch \<noteq> NUL"
    and "ADVANCE s = (c, m)"
  shows "scan c m w = Some (Returned (contents w @ map Some s @ [Some NUL]) (live w))"
  using assms
proof (induction s arbitrary: w c m)
  case Nil
  then have "c = NUL" by (simp add: ADVANCE_def)
  then have "step c m w = Inl (finish w)" by (simp add: step_def NUL_def)
  then show ?case using finish_sound [OF Nil(1,2)] by (subst scan.simps) simp
next
  case (Cons x xs)
  then have c: "c = x" "m = xs" "c \<noteq> CHR ''z''" "c \<noteq> CHR ''Z''" "c \<noteq> NUL"
    by (auto simp: ADVANCE_def)
  from PUSH_sound [OF Cons.prems(1,2), of c] obtain w' where
    w': "PUSH c w = Inr w'" "sound w'" "plentiful w'" "live w' = live w"
      "contents w' = contents w @ [Some c]"
    by blast
  obtain c' m' where A: "ADVANCE xs = (c', m')" by (cases "ADVANCE xs")
  have "step c m w = Inr (c', m', w')"
    using c w'(1) A by (simp add: step_def and_then_def CONTINUE_def)
  moreover have "scan c' m' w' = Some (Returned (contents w' @ map Some xs @ [Some NUL]) (live w'))"
    using Cons.prems(3) by (intro Cons.IH [OF w'(2,3) _ A]) simp
  ultimately show ?case using w' c by (subst scan.simps) simp
qed

text \<open>
  C8. An input without \<open>z\<close> and \<open>Z\<close> (and, being a C string, without the terminator
  inside) is returned unchanged when no allocation fails; the empty input among them.
\<close>

theorem literal_identity:
  assumes "\<forall>ch\<in>set s. ch \<noteq> CHR ''z'' \<and> ch \<noteq> CHR ''Z'' \<and> ch \<noteq> NUL"
    and "\<forall>ok\<in>set allocs. ok"
  shows "haskell_demangle allocs s = Some (Returned (c_string s) 1)"
proof -
  let ?w0 = "\<lparr>buf = \<lparr>capacity = DEFAULT_BUF_SIZE, length' = 0, data = None\<rparr>,
               plan = allocs, live = 0\<rparr>"
  have p0: "plentiful ?w0" using assms(2) by (simp add: plentiful_def list_all_iff)
  from granted_plentiful [OF p0] obtain w1 where
    w1: "granted ?w0 = (True, w1)" "plentiful w1" "live w1 = 0"
    by auto
  let ?w = "w1\<lparr>live := live w1 + 1,
               buf := \<lparr>capacity = DEFAULT_BUF_SIZE, length' = 0,
                        data = Some (replicate DEFAULT_BUF_SIZE None)\<rparr>\<rparr>"
  have w: "sound ?w" "plentiful ?w" "contents ?w = []" "live ?w = 1"
    using w1 by (simp_all add: sound_def plentiful_def contents_def DEFAULT_BUF_SIZE_def)
  obtain c m where A: "ADVANCE s = (c, m)" by (cases "ADVANCE s")
  have "haskell_demangle allocs s = scan c m ?w"
    using w1(1) A by (simp add: haskell_demangle_def malloc_def)
  also have "\<dots> = Some (Returned (contents ?w @ map Some s @ [Some NUL]) (live ?w))"
    by (rule scan_literal [OF w(1,2) assms(1) A])
  finally show ?thesis using w(3,4) by (simp add: c_string_def)
qed

theorem literal_identity_witness:
  "haskell_demangle [True, True] ''base_GHC.Base_map_info'' =
     Some (Returned (c_string ''base_GHC.Base_map_info'') 1)
   \<and> haskell_demangle [] [] = Some (Returned (c_string []) 1)"
  using literal_identity [of "''base_GHC.Base_map_info''" "[True, True]"]
    literal_identity [of "[]" "[]"]
  by (simp add: NUL_def)

section \<open>Numeric escapes\<close>

lemma ord_simps: "ord CHR ''0'' = 48" "ord CHR ''9'' = 57" "ord CHR ''a'' = 97" "ord CHR ''f'' = 102"
  "ord CHR ''A'' = 65" "ord CHR ''F'' = 70"
  by (simp_all add: ord_def)

lemma hex_acc:
  assumes "lower_hex d"
  shows "(if ord d \<le> ord CHR ''9''
          then word_of_nat v * 16 + word_of_int (ord d - ord CHR ''0'')
          else word_of_nat v * 16 + word_of_int (10 + ord d - ord CHR ''a''))
         = (word_of_nat (16 * v + hex_digit d) :: 32 word)"
proof (cases "isdigit d")
  case True
  then have "ord d \<le> ord CHR ''9''" "0 \<le> ord d - ord CHR ''0''"
    by (simp_all add: isdigit_def)
  then show ?thesis using True by (simp add: hex_digit_def)
next
  case False
  with assms have "\<not> ord d \<le> ord CHR ''9''" "0 \<le> 10 + ord d - ord CHR ''a''"
    by (auto simp: lower_hex_def isdigit_def ord_simps)
  then show ?thesis using False by (simp add: hex_digit_def)
qed

lemma lower_hex_isxdigit: "lower_hex ch \<Longrightarrow> isxdigit ch"
  by (auto simp: lower_hex_def isxdigit_def)

lemma hex_run_lower:
  assumes "lower_hex d" "\<forall>ch\<in>set ds. lower_hex ch" "\<not> isxdigit x"
  shows "hex_run (word_of_nat v) d (ds @ x # rest) = (word_of_nat (hex_value v (d # ds)), x, rest)"
  using assms(1,2)
proof (induction ds arbitrary: v d)
  case Nil
  show ?case
    using assms(3) hex_acc [OF Nil(1), of v]
    by (subst hex_run.simps) (simp add: ADVANCE_def Let_def)
next
  case (Cons y ys)
  have y: "isxdigit y" "lower_hex y" using Cons.prems(2) by (auto intro: lower_hex_isxdigit)
  have "hex_run (word_of_nat v) d ((y # ys) @ x # rest)
        = hex_run (word_of_nat (16 * v + hex_digit d)) y (ys @ x # rest)"
    using y(1) hex_acc [OF Cons.prems(1), of v]
    by (subst hex_run.simps) (simp add: ADVANCE_def Let_def)
  also have "\<dots> = (word_of_nat (hex_value (16 * v + hex_digit d) (y # ys)), x, rest)"
    using Cons.prems(2) by (intro Cons.IH [OF y(2)]) simp
  finally show ?case by simp
qed

text \<open>
  A run of digits and lower-case letters that ends at a byte other than \<open>U\<close> (and
  other than \<open>A\<close> to \<open>F\<close>) is a failure, as \<open>z41X\<close> is.
\<close>

lemma hex_run_must_end_in_U:
  assumes "isdigit d" "\<forall>ch\<in>set ds. lower_hex ch" "\<not> isxdigit x" "x \<noteq> CHR ''U''"
  shows "step CHR ''z'' (d # ds @ x # rest) w = Inl (fail w)"
proof -
  have d: "lower_hex d" using assms(1) by (simp add: lower_hex_def)
  have "hex_run 0 d (ds @ x # rest) = (word_of_nat (hex_value 0 (d # ds)), x, rest)"
    using hex_run_lower [OF d assms(2,3), of 0 rest] by simp
  then show ?thesis
    using assms(1,4) by (simp add: step_def escape_lower_def ADVANCE_def)
qed

lemma z41_examples:
  "haskell_demangle [] ''z41U'' = Some (Returned (c_string ''A'') 1)"
  "haskell_demangle [] ''z41X'' = Some (Failed 0)"
  by (simp_all add: eval_simps)

text \<open>
  C4. In a numeric escape only digits and the letters \<open>a\<close> to \<open>f\<close> are to be part of the
  run. The loop condition is \<^verbatim>\<open>isxdigit\<close>, which also holds of \<open>A\<close> to \<open>F\<close>, while the
  value is computed as for a lower-case letter: in \<open>z4AU\<close> the \<open>A\<close> is taken into the
  run with the value \<open>10 + 'A' - 'a' = -22\<close>, the code is \<open>4 * 16 - 22 = 42\<close>, and the
  result is \<open>*\<close> instead of a failure.
\<close>

theorem upper_hex_accepted:
  "haskell_demangle [] ''z4AU'' = Some (Returned (c_string ''*'') 1)"
  by (simp add: eval_simps)

text \<open>
  C5, as stated: a numeric escape whose run denotes a value above 0x10FFFF fails. The
  code is accumulated in 32 bits: the run \<open>100000041\<close> denotes 0x100000041 and is
  decoded as 0x41.
\<close>

theorem wrapped_code_accepted:
  "0x10FFFF < hex_value 0 ''100000041''
   \<and> haskell_demangle [] ''z100000041U'' = Some (Returned (c_string ''A'') 1)"
  by (simp add: eval_simps hex_digit_def)

lemma push_char_code_out_of_range:
  assumes "0x10FFFF < char_code"
  shows "\<exists>w'. str_buf_push_char_code char_code w = Inr (True, w')"
proof -
  have big: "0x10FFFF < unat char_code"
    using assms by (simp add: word_less_nat_alt)
  then have "\<not> char_code \<le> 0x7F" "\<not> char_code \<le> 0x7FF" "\<not> char_code \<le> 0xFFFF"
    "\<not> char_code \<le> 0x10FFFF"
    by (simp_all add: word_le_nat_alt)
  then show ?thesis
    by (cases "str_buf_reserve 4 w") (simp add: str_buf_push_char_code_def Let_def)
qed

text \<open>
  C5, amended: a numeric escape (a digit, then digits and letters \<open>a\<close> to \<open>f\<close>, then
  \<open>U\<close>) whose run denotes a value that is above 0x10FFFF modulo \<open>2^32\<close> makes the
  decoder fail, whatever the state of the buffer and of the allocator; nothing is
  returned.
\<close>

theorem code_point_out_of_range:
  assumes "isdigit d" "\<forall>ch\<in>set ds. lower_hex ch"
    and "0x10FFFF < hex_value 0 (d # ds) mod 2 ^ 32"
  shows "\<exists>n. scan CHR ''z'' (d # ds @ CHR ''U'' # rest) w = Some (Failed n)"
proof -
  have U: "\<not> isxdigit CHR ''U''" by (simp add: isxdigit_def isdigit_def ord_def)
  have d: "lower_hex d" using assms(1) by (simp add: lower_hex_def)
  have run: "hex_run 0 d (ds @ CHR ''U'' # rest) = (word_of_nat (hex_value 0 (d # ds)), CHR ''U'', rest)"
    using hex_run_lower [OF d assms(2) U, of 0 rest] by simp
  have "0x10FFFF < unat (word_of_nat (hex_value 0 (d # ds)) :: 32 word)"
    using assms(3) by (simp add: unat_of_nat)
  then have "0x10FFFF < (word_of_nat (hex_value 0 (d # ds)) :: 32 word)"
    by (simp add: word_less_nat_alt)
  from push_char_code_out_of_range [OF this, of w] obtain w' where
    "str_buf_push_char_code (word_of_nat (hex_value 0 (d # ds))) w = Inr (True, w')"
    by blast
  then have "step CHR ''z'' (d # ds @ CHR ''U'' # rest) w = Inl (fail w')"
    using assms(1) run
    by (simp add: step_def escape_lower_def ADVANCE_def or_fail_def and_then_def)
  then show ?thesis
    by (subst scan.simps) (simp add: fail_def)
qed

theorem code_point_out_of_range_witness:
  "0x10FFFF < hex_value 0 ''110000'' mod 2 ^ 32
   \<and> (\<exists>n. scan CHR ''z'' ''110000U'' empty_buffer = Some (Failed n))"
  using code_point_out_of_range [of "CHR ''1''" "''10000''" "[]" empty_buffer]
  by (simp add: isdigit_def lower_hex_def ord_def hex_digit_def)

section \<open>Escapes of upper-case letters\<close>

text \<open>
  C3, as stated: \<open>ZZT\<close> decodes to \<open>()\<close>. It does not: \<open>ZZ\<close> is the escape of the
  letter \<open>Z\<close> in \<^verbatim>\<open>Z_chars\<close>, and \<open>T\<close> is a literal.
\<close>

theorem ZZT_is_not_unit:
  "haskell_demangle [] ''ZZT'' \<noteq> Some (Returned (c_string ''()'') 1)"
  by (simp add: eval_simps)

text \<open>C3, amended: decoding \<open>ZZT\<close> succeeds and returns the two-character string \<open>ZT\<close>.\<close>

theorem ZZT_is_ZT:
  "haskell_demangle [] ''ZZT'' = Some (Returned (c_string ''ZT'') 1)"
  by (simp add: eval_simps)

lemma Z0T_is_unit:
  "haskell_demangle [] ''Z0T'' = Some (Returned (c_string ''()'') 1)"
  by (simp add: eval_simps)

section \<open>Tuples\<close>

lemma dec_acc:
  assumes "isdigit d"
  shows "word_of_nat v * 10 + word_of_int (ord d - ord CHR ''0'')
         = (word_of_nat (10 * v + dec_digit d) :: 32 word)"
proof -
  have "0 \<le> ord d - ord CHR ''0''" using assms by (simp add: isdigit_def)
  then show ?thesis by (simp add: dec_digit_def)
qed

lemma dec_run_digits:
  assumes "isdigit d" "\<forall>ch\<in>set ds. isdigit ch" "\<not> isdigit (fst (ADVANCE rest))"
  shows "dec_run (word_of_nat v) d (ds @ rest) = (word_of_nat (dec_value v (d # ds)), ADVANCE rest)"
  using assms(1,2)
proof (induction ds arbitrary: v d)
  case Nil
  show ?case
    using assms(3) dec_acc [OF Nil(1), of v]
    by (subst dec_run.simps) (cases "ADVANCE rest"; simp add: Let_def mult.commute)
next
  case (Cons y ys)
  have y: "isdigit y" using Cons.prems(2) by simp
  have "dec_run (word_of_nat v) d ((y # ys) @ rest)
        = dec_run (word_of_nat (10 * v + dec_digit d)) y (ys @ rest)"
    using y dec_acc [OF Cons.prems(1), of v]
    by (subst dec_run.simps) (simp add: ADVANCE_def Let_def mult.commute)
  also have "\<dots> = (word_of_nat (dec_value (10 * v + dec_digit d) (y # ys)), ADVANCE rest)"
    using Cons.prems(2) by (intro Cons.IH [OF y]) simp
  finally show ?case by simp
qed

lemma word_of_nat_cong32:
  "m mod 2 ^ 32 = n mod 2 ^ 32 \<Longrightarrow> (word_of_nat m :: 32 word) = word_of_nat n"
  by (simp add: word_of_nat_eq_iff take_bit_eq_mod)

lemma same_residue:
  assumes "isdigit d" "\<forall>ch\<in>set ds. isdigit ch"
    and "isdigit d'" "\<forall>ch\<in>set ds'. isdigit ch"
    and "\<not> isdigit (fst (ADVANCE rest))"
    and "dec_value 0 (d # ds) mod 2 ^ 32 = dec_value 0 (d' # ds') mod 2 ^ 32"
  shows "unat (fst (dec_run 0 d (ds @ rest))) = dec_value 0 (d # ds) mod 2 ^ 32
       \<and> scan CHR ''Z'' (d # ds @ rest) w = scan CHR ''Z'' (d' # ds' @ rest) w"
proof -
  have run: "dec_run 0 d (ds @ rest) = (word_of_nat (dec_value 0 (d # ds)), ADVANCE rest)"
    using dec_run_digits [OF assms(1,2,5), of 0] by simp
  have run': "dec_run 0 d' (ds' @ rest) = (word_of_nat (dec_value 0 (d' # ds')), ADVANCE rest)"
    using dec_run_digits [OF assms(3,4,5), of 0] by simp
  have eq: "(word_of_nat (dec_value 0 (d # ds)) :: 32 word) = word_of_nat (dec_value 0 (d' # ds'))"
    by (rule word_of_nat_cong32 [OF assms(6)])
  have m: "unat (word_of_nat (dec_value 0 (d # ds)) :: 32 word) = dec_value 0 (d # ds) mod 2 ^ 32"
    by (simp add: unat_of_nat)
  have "escape_upper (d # ds @ rest) w = escape_upper (d' # ds' @ rest) w"
    using assms(1,3) run run' eq by (simp add: escape_upper_def ADVANCE_def)
  then have "step CHR ''Z'' (d # ds @ rest) w = step CHR ''Z'' (d' # ds' @ rest) w"
    by (simp add: step_def)
  then have "scan CHR ''Z'' (d # ds @ rest) w = scan CHR ''Z'' (d' # ds' @ rest) w"
    by (subst (1 2) scan.simps) simp
  then show ?thesis using run m by simp
qed

lemma wrapped_arity_example:
  "haskell_demangle [] ''Z4294967296T'' = Some (Returned (c_string ''()'') 1)"
  by (simp add: eval_simps)

lemma not_isdigit_TH: "\<not> isdigit CHR ''T''" "\<not> isdigit CHR ''H''"
  by (simp_all add: isdigit_def ord_def)

lemma arity_of_run:
  assumes "isdigit d" "\<forall>ch\<in>set ds. isdigit ch" "\<not> isdigit x"
  shows "dec_run 0 d (ds @ x # rest) = (word_of_nat (dec_value 0 (d # ds)), x, rest)"
  using dec_run_digits [OF assms(1,2), of "x # rest" 0] assms(3) by (simp add: ADVANCE_def)

lemma arity_cases:
  fixes v :: nat
  defines "arity \<equiv> (word_of_nat v :: 32 word)"
  shows "unat arity = v mod 2 ^ 32"
    and "arity = 0 \<longleftrightarrow> v mod 2 ^ 32 = 0"
    and "arity = 1 \<longleftrightarrow> v mod 2 ^ 32 = 1"
proof -
  show u: "unat arity = v mod 2 ^ 32" by (simp add: arity_def unat_of_nat)
  show "arity = 0 \<longleftrightarrow> v mod 2 ^ 32 = 0" using u by (simp add: unat_eq_0 [symmetric])
  show "arity = 1 \<longleftrightarrow> v mod 2 ^ 32 = 1" using u by (simp add: word_unat_eq_iff)
qed

lemma unat_plus_small:
  fixes arity :: "32 word"
  assumes "unat arity + k < 2 ^ 32"
  shows "unat (arity + word_of_nat k) = unat arity + k"
proof -
  have "unat (word_of_nat k :: 32 word) = k"
    using assms by (simp add: unat_of_nat)
  then show ?thesis using assms by (simp add: unat_word_ariths)
qed

text \<open>
  The ordinary tuples, for a run of digits of value \<open>n\<close> modulo \<open>2^32\<close>, on a sound
  buffer and with memory: \<open>()\<close> for 0, the failure for 1, and \<open>(\<close>, \<open>n - 1\<close> commas
  and \<open>)\<close> from 2 up to \<open>2^32 - 2\<close>.
\<close>

lemma ordinary_tuple:
  fixes rest :: "char list"
  assumes w: "sound w" "plentiful w"
    and run: "isdigit d" "\<forall>ch\<in>set ds. isdigit ch"
  defines "n \<equiv> dec_value 0 (d # ds) mod 2 ^ 32"
  defines "input \<equiv> d # ds @ CHR ''T'' # rest"
  shows "n = 0 \<Longrightarrow> \<exists>w'. step CHR ''Z'' input w = Inr (fst (ADVANCE rest), snd (ADVANCE rest), w')
            \<and> sound w' \<and> plentiful w' \<and> live w' = live w
            \<and> contents w' = contents w @ map Some ''()''"
    and "n = 1 \<Longrightarrow> step CHR ''Z'' input w = Inl (fail w)"
    and "2 \<le> n \<Longrightarrow> n < 2 ^ 32 - 1 \<Longrightarrow>
          \<exists>w'. step CHR ''Z'' input w = Inr (fst (ADVANCE rest), snd (ADVANCE rest), w')
            \<and> sound w' \<and> plentiful w' \<and> live w' = live w
            \<and> contents w' = contents w @ map Some (''('' @ replicate (n - 1) CHR '','' @ '')'')"
proof -
  let ?arity = "word_of_nat (dec_value 0 (d # ds)) :: 32 word"
  have dr: "dec_run 0 d (ds @ CHR ''T'' # rest) = (?arity, CHR ''T'', rest)"
    by (rule arity_of_run [OF run not_isdigit_TH(1)])
  note ar = arity_cases [of "dec_value 0 (d # ds)", folded n_def]
  obtain c m where A: "ADVANCE rest = (c, m)" by (cases "ADVANCE rest")
  have st: "step CHR ''Z'' input w =
    (if ?arity = 0 then
       and_then (RESERVE 2 w) (\<lambda>w.
       and_then (WRITE [CHR ''('', CHR '')''] w) (\<lambda>w. Inr (c, m, w)))
     else if ?arity = 1 then Inl (fail w)
     else
       and_then (RESERVE (unat (?arity + 1)) w) (\<lambda>w.
       and_then (WRITE [CHR ''(''] w) (\<lambda>w.
       and_then (commas 1 (unat ?arity) w) (\<lambda>w.
       and_then (WRITE [CHR '')''] w) (\<lambda>w. Inr (c, m, w))))))"
    using run(1) dr A by (simp add: step_def escape_upper_def input_def ADVANCE_def)
  {
    assume n: "n = 0"
    from RESERVE_room [OF w, of 2] obtain w1 where
      w1: "RESERVE 2 w = Inr w1" "sound w1" "plentiful w1" "live w1 = live w"
        "length' (buf w1) + 2 \<le> capacity (buf w1)" "contents w1 = contents w"
      by auto
    have "length' (buf w1) + length [CHR ''('', CHR '')''] \<le> capacity (buf w1)"
      using w1(5) by simp
    from WRITE_room [OF w1(2) this] obtain w2 where
      w2: "WRITE [CHR ''('', CHR '')''] w1 = Inr w2" "sound w2" "plan w2 = plan w1"
        "live w2 = live w1" "contents w2 = contents w1 @ map Some [CHR ''('', CHR '')'']"
      by blast
    have "plentiful w2" using w2(3) w1(3) by (simp add: plentiful_def)
    then show "\<exists>w'. step CHR ''Z'' input w = Inr (fst (ADVANCE rest), snd (ADVANCE rest), w')
            \<and> sound w' \<and> plentiful w' \<and> live w' = live w
            \<and> contents w' = contents w @ map Some ''()''"
      using n ar st w1 w2 A by (simp add: and_then_def)
  }
  {
    assume "n = 1"
    then show "step CHR ''Z'' input w = Inl (fail w)"
      using ar st by simp
  }
  {
    assume n: "2 \<le> n" "n < 2 ^ 32 - 1"
    have ne: "?arity \<noteq> 0" "?arity \<noteq> 1" using n ar by simp_all
    have u: "unat ?arity = n" using ar by simp
    have u1: "unat (?arity + 1) = n + 1"
      using unat_plus_small [of ?arity 1] u n by simp
    from RESERVE_room [OF w, of "n + 1"] obtain w1 where
      w1: "RESERVE (n + 1) w = Inr w1" "sound w1" "plentiful w1" "live w1 = live w"
        "length' (buf w1) + (n + 1) \<le> capacity (buf w1)" "contents w1 = contents w"
      by auto
    have "length' (buf w1) + length [CHR ''(''] \<le> capacity (buf w1)"
      using w1(5) by simp
    from WRITE_room [OF w1(2) this] obtain w2 where
      w2: "WRITE [CHR ''(''] w1 = Inr w2" "sound w2" "plan w2 = plan w1"
        "live w2 = live w1" "capacity (buf w2) = capacity (buf w1)"
        "length' (buf w2) = length' (buf w1) + 1"
        "contents w2 = contents w1 @ map Some [CHR ''('']"
      by auto
    have "length' (buf w2) + (n - 1) \<le> capacity (buf w2)"
      using w1(5) w2 n by simp
    from commas_room [OF w2(2) this] obtain w3 where
      w3: "commas 1 n w2 = Inr w3" "sound w3" "plan w3 = plan w2"
        "live w3 = live w2" "capacity (buf w3) = capacity (buf w2)"
        "length' (buf w3) = length' (buf w2) + (n - 1)"
        "contents w3 = contents w2 @ replicate (n - 1) (Some CHR '','')"
      by blast
    have "length' (buf w3) + length [CHR '')''] \<le> capacity (buf w3)"
      using w1(5) w2 w3 n by simp
    from WRITE_room [OF w3(2) this] obtain w4 where
      w4: "WRITE [CHR '')''] w3 = Inr w4" "sound w4" "plan w4 = plan w3"
        "live w4 = live w3" "contents w4 = contents w3 @ map Some [CHR '')'']"
      by blast
    have "plentiful w4" using w4(3) w3(3) w2(3) w1(3) by (simp add: plentiful_def)
    moreover have "step CHR ''Z'' input w = Inr (c, m, w4)"
      using ne u u1 st w1(1) w2(1) w3(1) w4(1) by (simp add: and_then_def)
    ultimately show "\<exists>w'. step CHR ''Z'' input w = Inr (fst (ADVANCE rest), snd (ADVANCE rest), w')
            \<and> sound w' \<and> plentiful w' \<and> live w' = live w
            \<and> contents w' = contents w @ map Some (''('' @ replicate (n - 1) CHR '','' @ '')'')"
      using w1 w2 w3 w4 A by (simp add: map_replicate)
  }
qed

lemma tuple_examples:
  "haskell_demangle [] ''Z2T'' = Some (Returned (c_string ''(,)'') 1)"
  "haskell_demangle [] ''Z3T'' = Some (Returned (c_string ''(,,)'') 1)"
  "haskell_demangle [] ''Z1T'' = Some (Failed 0)"
  by (simp_all add: eval_simps)

text \<open>
  C6. The ordinary tuple of arity \<open>n \<ge> 2\<close> is to be \<open>(\<close>, \<open>n - 1\<close> commas and \<open>)\<close>.
  That holds up to \<open>2^32 - 2\<close> (\<open>ordinary_tuple\<close>), and so do the examples of the
  claim. For the arity \<open>2^32 - 1\<close> the 32-bit sum \<^verbatim>\<open>arity + 1\<close> is 0, nothing is
  reserved, and the commas are written past the end of the block.
\<close>

theorem tuple_reserve_wraps:
  "haskell_demangle [] ''Z4294967295T'' = Some (Crashed Out_Of_Bounds)"
  by (simp add: eval_simps)

text \<open>
  The unboxed tuples, likewise: the failure for 0, \<open>(#\<close>, \<open>n - 1\<close> commas and \<open>#)\<close>
  from 2 up to \<open>2^32 - 4\<close>; for 1 the five bytes \<open>(# #)\<close> are the result when the
  buffer was empty.
\<close>

lemma unboxed_tuple:
  fixes rest :: "char list"
  assumes w: "sound w" "plentiful w"
    and run: "isdigit d" "\<forall>ch\<in>set ds. isdigit ch"
  defines "n \<equiv> dec_value 0 (d # ds) mod 2 ^ 32"
  defines "input \<equiv> d # ds @ CHR ''H'' # rest"
  shows "n = 0 \<Longrightarrow> step CHR ''Z'' input w = Inl (fail w)"
    and "n = 1 \<Longrightarrow> contents w = [] \<Longrightarrow>
          \<exists>w'. step CHR ''Z'' input w = Inr (fst (ADVANCE rest), snd (ADVANCE rest), w')
            \<and> sound w' \<and> plentiful w' \<and> live w' = live w
            \<and> contents w' = map Some ''(# #)''"
    and "2 \<le> n \<Longrightarrow> n < 2 ^ 32 - 3 \<Longrightarrow>
          \<exists>w'. step CHR ''Z'' input w = Inr (fst (ADVANCE rest), snd (ADVANCE rest), w')
            \<and> sound w' \<and> plentiful w' \<and> live w' = live w
            \<and> contents w' = contents w @ map Some (''(#'' @ replicate (n - 1) CHR '','' @ ''#)'')"
proof -
  let ?arity = "word_of_nat (dec_value 0 (d # ds)) :: 32 word"
  have dr: "dec_run 0 d (ds @ CHR ''H'' # rest) = (?arity, CHR ''H'', rest)"
    by (rule arity_of_run [OF run not_isdigit_TH(2)])
  note ar = arity_cases [of "dec_value 0 (d # ds)", folded n_def]
  obtain c m where A: "ADVANCE rest = (c, m)" by (cases "ADVANCE rest")
  have st: "step CHR ''Z'' input w =
    (if ?arity = 0 then Inl (fail w)
     else if ?arity = 1 then and_then (PUSH_STR ''(# #)'' w) (\<lambda>w. Inr (c, m, w))
     else
       and_then (RESERVE (unat (?arity + 3)) w) (\<lambda>w.
       and_then (WRITE [CHR ''('', CHR ''#''] w) (\<lambda>w.
       and_then (commas 1 (unat ?arity) w) (\<lambda>w.
       and_then (WRITE [CHR ''#'', CHR '')''] w) (\<lambda>w. Inr (c, m, w))))))"
    using run(1) dr A by (simp add: step_def escape_upper_def input_def ADVANCE_def)
  {
    assume "n = 0"
    then show "step CHR ''Z'' input w = Inl (fail w)"
      using ar st by simp
  }
  {
    assume n: "n = 1" and empty: "contents w = []"
    from w(1) empty have l0: "length' (buf w) = 0"
      by (auto simp: sound_def contents_def split: option.splits)
    from push_str_at_start [OF w, of "''(# #)''"] obtain w1 where
      w1: "str_buf_push_str ''(# #)'' w = Inr (False, w1)" "sound w1" "plentiful w1"
        "live w1 = live w" "length' (buf w1) = length' (buf w) + length ''(# #)''"
        "take (length ''(# #)'') (contents w1) = map Some ''(# #)''"
      by blast
    from w1(2) have "length (contents w1) = length' (buf w1)"
      by (auto simp: sound_def contents_def split: option.splits)
    then have "take (length ''(# #)'') (contents w1) = contents w1"
      using w1(5) l0 by simp
    then have "contents w1 = map Some ''(# #)''" using w1(6) by simp
    then show "\<exists>w'. step CHR ''Z'' input w = Inr (fst (ADVANCE rest), snd (ADVANCE rest), w')
            \<and> sound w' \<and> plentiful w' \<and> live w' = live w
            \<and> contents w' = map Some ''(# #)''"
      using n ar st w1 A by (simp add: and_then_def PUSH_STR_def or_fail_def)
  }
  {
    assume n: "2 \<le> n" "n < 2 ^ 32 - 3"
    have ne: "?arity \<noteq> 0" "?arity \<noteq> 1" using n ar by simp_all
    have u: "unat ?arity = n" using ar by simp
    have u3: "unat (?arity + 3) = n + 3"
      using unat_plus_small [of ?arity 3] u n by simp
    from RESERVE_room [OF w, of "n + 3"] obtain w1 where
      w1: "RESERVE (n + 3) w = Inr w1" "sound w1" "plentiful w1" "live w1 = live w"
        "length' (buf w1) + (n + 3) \<le> capacity (buf w1)" "contents w1 = contents w"
      by auto
    have "length' (buf w1) + length [CHR ''('', CHR ''#''] \<le> capacity (buf w1)"
      using w1(5) by simp
    from WRITE_room [OF w1(2) this] obtain w2 where
      w2: "WRITE [CHR ''('', CHR ''#''] w1 = Inr w2" "sound w2" "plan w2 = plan w1"
        "live w2 = live w1" "capacity (buf w2) = capacity (buf w1)"
        "length' (buf w2) = length' (buf w1) + 2"
        "contents w2 = contents w1 @ map Some [CHR ''('', CHR ''#'']"
      by auto
    have "length' (buf w2) + (n - 1) \<le> capacity (buf w2)"
      using w1(5) w2 n by simp
    from commas_room [OF w2(2) this] obtain w3 where
      w3: "commas 1 n w2 = Inr w3" "sound w3" "plan w3 = plan w2"
        "live w3 = live w2" "capacity (buf w3) = capacity (buf w2)"
        "length' (buf w3) = length' (buf w2) + (n - 1)"
        "contents w3 = contents w2 @ replicate (n - 1) (Some CHR '','')"
      by blast
    have "length' (buf w3) + length [CHR ''#'', CHR '')''] \<le> capacity (buf w3)"
      using w1(5) w2 w3 n by simp
    from WRITE_room [OF w3(2) this] obtain w4 where
      w4: "WRITE [CHR ''#'', CHR '')''] w3 = Inr w4" "sound w4" "plan w4 = plan w3"
        "live w4 = live w3" "contents w4 = contents w3 @ map Some [CHR ''#'', CHR '')'']"
      by blast
    have "plentiful w4" using w4(3) w3(3) w2(3) w1(3) by (simp add: plentiful_def)
    moreover have "step CHR ''Z'' input w = Inr (c, m, w4)"
      using ne u u3 st w1(1) w2(1) w3(1) w4(1) by (simp add: and_then_def)
    ultimately show "\<exists>w'. step CHR ''Z'' input w = Inr (fst (ADVANCE rest), snd (ADVANCE rest), w')
            \<and> sound w' \<and> plentiful w' \<and> live w' = live w
            \<and> contents w' = contents w @ map Some (''(#'' @ replicate (n - 1) CHR '','' @ ''#)'')"
      using w1 w2 w3 w4 A by (simp add: map_replicate)
  }
qed

lemma unboxed_examples:
  "haskell_demangle [] ''Z1H'' = Some (Returned (c_string ''(# #)'') 1)"
  "haskell_demangle [] ''Z3H'' = Some (Returned (c_string ''(#,,#)'') 1)"
  "haskell_demangle [] ''Z0H'' = Some (Failed 0)"
  by (simp_all add: eval_simps)

text \<open>
  C7. The unboxed tuple of arity 1 is to be the five bytes \<open>(# #)\<close>, that of arity
  \<open>n \<ge> 2\<close> is to be \<open>(#\<close>, \<open>n - 1\<close> commas and \<open>#)\<close>. The examples of the claim
  hold. The arity 1 goes through \<^verbatim>\<open>str_buf_push_str\<close>, which writes at the start of the
  buffer: after an \<open>a\<close> the result is \<open>(# #)\<close> and a byte that was never written. And
  for the arity \<open>2^32 - 3\<close> the 32-bit sum \<^verbatim>\<open>arity + 3\<close> is 0 and the writes leave the
  block.
\<close>

theorem unboxed_tuple_mishandled:
  "haskell_demangle [] ''aZ1H'' = Some (Returned (map Some ''(# #)'' @ [None, Some NUL]) 1)
   \<and> haskell_demangle [] ''Z4294967293H'' = Some (Crashed Out_Of_Bounds)"
  by (simp add: eval_simps)

section \<open>The arity modulo \<open>2^32\<close>\<close>

lemma emits_iff:
  "emits txt tail w r \<longleftrightarrow>
     (\<exists>w'. r = Inr (fst (ADVANCE tail), snd (ADVANCE tail), w') \<and> sound w' \<and> plentiful w'
        \<and> live w' = live w \<and> contents w' = contents w @ map Some txt)"
  by (cases r) (auto simp: emits_def prod_eq_iff)

lemma start_of_decode:
  assumes "\<forall>ok\<in>set allocs. ok"
  shows "\<exists>w. sound w \<and> plentiful w \<and> contents w = [] \<and> live w = 1
           \<and> haskell_demangle allocs (c # m) = scan c m w"
proof -
  let ?v = "\<lparr>buf = \<lparr>capacity = DEFAULT_BUF_SIZE, length' = 0, data = None\<rparr>,
               plan = allocs, live = 0\<rparr>"
  have p0: "plentiful ?v" using assms by (simp add: plentiful_def list_all_iff)
  from granted_plentiful [OF p0] obtain w1 where
    w1: "granted ?v = (True, w1)" "plentiful w1" "live w1 = 0"
    by auto
  let ?w = "w1\<lparr>live := live w1 + 1,
               buf := \<lparr>capacity = DEFAULT_BUF_SIZE, length' = 0,
                        data = Some (replicate DEFAULT_BUF_SIZE None)\<rparr>\<rparr>"
  have "sound ?w" "plentiful ?w" "contents ?w = []" "live ?w = 1"
    using w1 by (simp_all add: sound_def plentiful_def contents_def DEFAULT_BUF_SIZE_def)
  moreover have "haskell_demangle allocs (c # m) = scan c m ?w"
    using w1(1) by (simp add: haskell_demangle_def malloc_def ADVANCE_def)
  ultimately show ?thesis by blast
qed

lemma scan_emits_last:
  assumes "emits txt [] w (step c m w)"
  shows "scan c m w = Some (Returned (contents w @ map Some txt @ [Some NUL]) (live w))"
proof -
  from assms obtain w' where
    w': "step c m w = Inr (NUL, [], w')" "sound w'" "plentiful w'" "live w' = live w"
      "contents w' = contents w @ map Some txt"
    by (auto simp: emits_iff ADVANCE_def)
  have "scan c m w = scan NUL [] w'"
    using w'(1) by (subst scan.simps) simp
  also have "\<dots> = Some (finish w')"
    by (subst scan.simps) (simp add: step_def NUL_def)
  finally show ?thesis using finish_sound [OF w'(2,3)] w'(4,5) by simp
qed

text \<open>
  C10. The arity is accumulated in 32 bits. For a run of digits of value \<open>v\<close>, with
  \<open>n = v mod 2^32\<close>: the arity after the run is \<open>n\<close>; a run with the same value modulo
  \<open>2^32\<close> is decoded in the same way, from any state and whatever follows; and what is
  emitted, on a sound buffer and with memory, is the tuple of \<open>n\<close>: after \<open>T\<close> the
  text \<open>()\<close> for 0, the failure for 1, \<open>(\<close>, \<open>n - 1\<close> commas and \<open>)\<close> from 2 up to
  \<open>2^32 - 2\<close>; after \<open>H\<close> the failure for 0, \<open>(# #)\<close> for 1 at the start of the
  output, \<open>(#\<close>, \<open>n - 1\<close> commas and \<open>#)\<close> from 2 up to \<open>2^32 - 4\<close>. In particular
  the decoding of \<open>Z\<close>, a run of value 0 modulo \<open>2^32\<close> (as 4294967296) and \<open>T\<close> is
  \<open>()\<close>.
\<close>

theorem arity_modulo:
  fixes tail :: "char list"
  assumes run: "isdigit d" "\<forall>ch\<in>set ds. isdigit ch"
    and run': "isdigit d'" "\<forall>ch\<in>set ds'. isdigit ch"
    and same: "dec_value 0 (d # ds) mod 2 ^ 32 = dec_value 0 (d' # ds') mod 2 ^ 32"
    and stop: "\<not> isdigit (fst (ADVANCE rest))"
    and w: "sound w" "plentiful w"
    and mem: "\<forall>ok\<in>set allocs. ok"
  defines "n \<equiv> dec_value 0 (d # ds) mod 2 ^ 32"
  shows "unat (fst (dec_run 0 d (ds @ rest))) = n
    \<and> scan CHR ''Z'' (d # ds @ rest) u = scan CHR ''Z'' (d' # ds' @ rest) u
    \<and> (n = 0 \<longrightarrow> emits ''()'' tail w (step CHR ''Z'' (d # ds @ CHR ''T'' # tail) w))
    \<and> (n = 1 \<longrightarrow> step CHR ''Z'' (d # ds @ CHR ''T'' # tail) w = Inl (fail w))
    \<and> (2 \<le> n \<and> n < 2 ^ 32 - 1 \<longrightarrow>
         emits (''('' @ replicate (n - 1) CHR '','' @ '')'') tail w
           (step CHR ''Z'' (d # ds @ CHR ''T'' # tail) w))
    \<and> (n = 0 \<longrightarrow> step CHR ''Z'' (d # ds @ CHR ''H'' # tail) w = Inl (fail w))
    \<and> (n = 1 \<and> contents w = [] \<longrightarrow>
         emits ''(# #)'' tail w (step CHR ''Z'' (d # ds @ CHR ''H'' # tail) w))
    \<and> (2 \<le> n \<and> n < 2 ^ 32 - 3 \<longrightarrow>
         emits (''(#'' @ replicate (n - 1) CHR '','' @ ''#)'') tail w
           (step CHR ''Z'' (d # ds @ CHR ''H'' # tail) w))
    \<and> (n = 0 \<longrightarrow>
         haskell_demangle allocs (CHR ''Z'' # d # ds @ ''T'') = Some (Returned (c_string ''()'') 1))"
proof -
  have residue: "unat (fst (dec_run 0 d (ds @ rest))) = n
      \<and> scan CHR ''Z'' (d # ds @ rest) u = scan CHR ''Z'' (d' # ds' @ rest) u"
    unfolding n_def by (rule same_residue [OF run run' stop same])
  note T = ordinary_tuple [OF w run, of tail, folded n_def emits_iff]
  note H0 = unboxed_tuple(1) [OF w run, of tail, folded n_def]
  note H2 = unboxed_tuple(3) [OF w run, of tail, folded n_def emits_iff]
  have H1: "emits ''(# #)'' tail w (step CHR ''Z'' (d # ds @ CHR ''H'' # tail) w)"
    if "n = 1" "contents w = []"
    using unboxed_tuple(2) [OF w run, of tail, folded n_def] that by (simp add: emits_iff)
  have decode: "haskell_demangle allocs (CHR ''Z'' # d # ds @ ''T'') = Some (Returned (c_string ''()'') 1)"
    if "n = 0"
  proof -
    from start_of_decode [OF mem, of "CHR ''Z''" "d # ds @ ''T''"] obtain w1 where
      w1: "sound w1" "plentiful w1" "contents w1 = []" "live w1 = 1"
        "haskell_demangle allocs (CHR ''Z'' # d # ds @ ''T'') = scan CHR ''Z'' (d # ds @ ''T'') w1"
      by blast
    have "emits ''()'' [] w1 (step CHR ''Z'' (d # ds @ ''T'') w1)"
      using ordinary_tuple(1) [OF w1(1,2) run, of "[]", folded n_def emits_iff] that by simp
    from scan_emits_last [OF this] w1 show ?thesis by (simp add: c_string_def)
  qed
  show ?thesis using residue T H0 H1 H2 decode by auto
qed

theorem arity_modulo_witness:
  "unat (fst (dec_run 0 CHR ''4'' ''294967296T'')) = 0
   \<and> scan CHR ''Z'' ''4294967296T'' holding_a = scan CHR ''Z'' ''0T'' holding_a
   \<and> emits ''()'' ''x'' holding_a (step CHR ''Z'' ''4294967296Tx'' holding_a)
   \<and> step CHR ''Z'' ''4294967296Hx'' holding_a = Inl (fail holding_a)
   \<and> haskell_demangle [] ''Z4294967296T'' = Some (Returned (c_string ''()'') 1)
   \<and> step CHR ''Z'' ''4294967297Tx'' holding_a = Inl (fail holding_a)
   \<and> emits ''(# #)'' ''x'' empty_buffer (step CHR ''Z'' ''4294967297Hx'' empty_buffer)
   \<and> emits ''(,,)'' ''x'' holding_a (step CHR ''Z'' ''4294967299Tx'' holding_a)
   \<and> emits ''(#,,#)'' ''x'' holding_a (step CHR ''Z'' ''4294967299Hx'' holding_a)"
proof -
  have digits: "isdigit CHR ''4''" "\<forall>ch\<in>set ''294967296''. isdigit ch"
    "\<forall>ch\<in>set ''294967297''. isdigit ch" "\<forall>ch\<in>set ''294967299''. isdigit ch"
    "isdigit CHR ''0''" "isdigit CHR ''1''" "isdigit CHR ''3''" "\<forall>ch\<in>set ''''. isdigit ch"
    and stop: "\<not> isdigit (fst (ADVANCE ''T''))"
    by (simp_all add: isdigit_def ord_def ADVANCE_def)
  have bufs: "sound holding_a" "plentiful holding_a" "sound empty_buffer" "plentiful empty_buffer"
    "contents empty_buffer = []"
    by (simp_all add: sound_def plentiful_def contents_def holding_a_def empty_buffer_def)
  have mem: "\<forall>ok\<in>set []. ok" by simp
  have val: "dec_value 0 ''4294967296'' mod 2 ^ 32 = 0" "dec_value 0 ''4294967297'' mod 2 ^ 32 = 1"
    "dec_value 0 ''4294967299'' mod 2 ^ 32 = 3" "dec_value 0 ''0'' = 0" "dec_value 0 ''1'' = 1"
    "dec_value 0 ''3'' = 3"
    by (simp_all add: dec_digit_def ord_def)
  have r2: "replicate 2 CHR '','' = '',,''" by (simp add: numeral_2_eq_2)
  note a0 = arity_modulo [OF digits(1,2) digits(5,8) _ stop bufs(1,2) mem,
      where tail = "''x''" and u = holding_a, unfolded val, simplified]
  note a1 = arity_modulo [OF digits(1,3) digits(6,8) _ stop bufs(1,2) mem,
      where tail = "''x''" and u = holding_a, unfolded val, simplified]
  note b1 = arity_modulo [OF digits(1,3) digits(6,8) _ stop bufs(3,4) mem,
      where tail = "''x''" and u = empty_buffer, unfolded val, simplified]
  note a3 = arity_modulo [OF digits(1,4) digits(7,8) _ stop bufs(1,2) mem,
      where tail = "''x''" and u = holding_a, unfolded val, simplified]
  show ?thesis using a0 a1 b1 a3 bufs(5) by (simp add: r2)
qed

end
